theory Spec2Isabelle
  imports Main "HOL-Library.Word"
begin

section \<open>The ShadowMint ledger (contracts/ShadowMint.sol)\<close>

text \<open>
  The contract is a single sequential state machine. Its storage is a record, every
  Solidity mapping is a total function whose default is the zero value, every dynamic
  array is a list, and every \<open>require\<close> or checked-arithmetic panic is an error value.
  A call that returns \<open>Inl e\<close> has reverted: \<open>transact\<close> gives back the state from before
  the call, as the platform does.
\<close>

subsection \<open>Data\<close>

type_synonym address = "160 word"
type_synonym uint256 = "256 word"
type_synonym bytes4 = "32 word"
type_synonym bytes = "8 word list"

text \<open>\<open>eaddress\<close> and \<open>externalEaddress\<close> are 32-byte handles of the FHE library.\<close>

type_synonym eaddress = "256 word"
type_synonym externalEaddress = "256 word"

record TokenData =
  owner :: address
  realOwner :: eaddress
  metadataURI :: string

text \<open>
  The five storage variables of the contract, and \<open>acl\<close>: the decrypt-permission relation
  kept by the external ACL subsystem, as far as this ledger writes to it.
\<close>

record state =
  nextTokenId :: uint256
  tokens :: "uint256 \<Rightarrow> TokenData"
  balances :: "address \<Rightarrow> uint256"
  ownedTokens :: "address \<Rightarrow> uint256 list"
  ownedTokenIndex :: "uint256 \<Rightarrow> uint256"
  acl :: "(eaddress \<times> address) set"

datatype event =
  Transfer address address uint256
| Minted address uint256 string
| DecryptPermissionGranted uint256 address

text \<open>
  \<open>Revert msg\<close> is a failed \<open>require\<close> with its message; \<open>Panic c\<close> is a Solidity 0.8
  panic (0x11 arithmetic overflow or underflow, 0x32 array index out of bounds, 0x31 pop
  of an empty array); \<open>InvalidCiphertext\<close> is the revert of \<open>FHE.fromExternal\<close>.
\<close>

datatype error = Revert string | Panic nat | InvalidCiphertext

type_synonym 'a result = "error + ('a \<times> event list \<times> state)"

text \<open>The state right after deployment: \<open>_nextTokenId = 1\<close>, everything else zero.\<close>

definition init :: state where
  "init = \<lparr> nextTokenId = 1,
            tokens = (\<lambda>_. \<lparr> owner = 0, realOwner = 0, metadataURI = [] \<rparr>),
            balances = (\<lambda>_. 0),
            ownedTokens = (\<lambda>_. []),
            ownedTokenIndex = (\<lambda>_. 0),
            acl = {} \<rparr>"

subsection \<open>Checked arithmetic of Solidity 0.8\<close>

definition checked_inc :: "uint256 \<Rightarrow> error + uint256" where
  "checked_inc x = (if x = - 1 then Inl (Panic 17) else Inr (x + 1))"

definition checked_dec :: "uint256 \<Rightarrow> error + uint256" where
  "checked_dec x = (if x = 0 then Inl (Panic 17) else Inr (x - 1))"

text \<open>The \<open>length\<close> member of a storage array is a \<open>uint256\<close>.\<close>

definition array_length :: "uint256 list \<Rightarrow> uint256" where
  "array_length xs = of_nat (length xs)"

subsection \<open>The FHE library\<close>

text \<open>
  Modelled from the spec: \<open>FHE.allow\<close> and \<open>FHE.allowThis\<close> belong to the external FHE
  library, which the spec describes as granting an address the right to decrypt a handle,
  additively and idempotently. \<open>FHE.fromExternal\<close> is a parameter of \<open>mint\<close>: given the
  contract, the submitter, the external handle and the proof it yields the validated
  handle, or \<open>None\<close> when validation fails.
\<close>

definition FHE_allow :: "eaddress \<Rightarrow> address \<Rightarrow> state \<Rightarrow> state" where
  "FHE_allow h account s = s\<lparr> acl := insert (h, account) (acl s) \<rparr>"

definition FHE_allowThis :: "address \<Rightarrow> eaddress \<Rightarrow> state \<Rightarrow> state" where
  "FHE_allowThis this h s = FHE_allow h this s"

type_synonym validator = "address \<Rightarrow> address \<Rightarrow> externalEaddress \<Rightarrow> bytes \<Rightarrow> eaddress option"

subsection \<open>Views\<close>

definition totalSupply :: "state \<Rightarrow> error + uint256" where
  "totalSupply s = checked_dec (nextTokenId s)"

definition balanceOf :: "state \<Rightarrow> address \<Rightarrow> error + uint256" where
  "balanceOf s a = (if a = 0 then Inl (Revert ''Invalid owner'') else Inr (balances s a))"

definition ownerOf :: "state \<Rightarrow> uint256 \<Rightarrow> error + address" where
  "ownerOf s tokenId =
     (let token = tokens s tokenId
      in if owner token = 0 then Inl (Revert ''Token does not exist'') else Inr (owner token))"

definition getToken :: "state \<Rightarrow> uint256 \<Rightarrow> error + TokenData" where
  "getToken s tokenId =
     (let token = tokens s tokenId
      in if owner token = 0 then Inl (Revert ''Token does not exist'') else Inr token)"

definition tokenURI :: "state \<Rightarrow> uint256 \<Rightarrow> error + string" where
  "tokenURI s tokenId =
     (case getToken s tokenId of Inl e \<Rightarrow> Inl e | Inr token \<Rightarrow> Inr (metadataURI token))"

definition getEncryptedRealOwner :: "state \<Rightarrow> uint256 \<Rightarrow> error + eaddress" where
  "getEncryptedRealOwner s tokenId =
     (case getToken s tokenId of Inl e \<Rightarrow> Inl e | Inr token \<Rightarrow> Inr (realOwner token))"

definition tokensOfOwner :: "state \<Rightarrow> address \<Rightarrow> uint256 list" where
  "tokensOfOwner s a = ownedTokens s a"

subsection \<open>The owned-token index\<close>

definition addOwnedToken :: "address \<Rightarrow> uint256 \<Rightarrow> state \<Rightarrow> state" where
  "addOwnedToken a tokenId s =
     s\<lparr> ownedTokenIndex := (ownedTokenIndex s)(tokenId := array_length (ownedTokens s a)),
        ownedTokens := (ownedTokens s)(a := ownedTokens s a @ [tokenId]) \<rparr>"

text \<open>
  Swap-and-pop. \<open>length - 1\<close> panics on an empty array, the write at \<open>index\<close> is
  bounds-checked, and \<open>delete\<close> resets the reverse index of the removed id to zero.
\<close>

definition removeOwnedToken :: "address \<Rightarrow> uint256 \<Rightarrow> state \<Rightarrow> error + state" where
  "removeOwnedToken a tokenId s =
     (case checked_dec (array_length (ownedTokens s a)) of
        Inl e \<Rightarrow> Inl e
      | Inr lastIndex \<Rightarrow>
          let index = ownedTokenIndex s tokenId;
              xs = ownedTokens s a
          in case (if index \<noteq> lastIndex
                   then if unat lastIndex < length xs \<and> unat index < length xs
                        then let lastTokenId = xs ! unat lastIndex
                             in Inr (s\<lparr> ownedTokens := (ownedTokens s)(a := xs[unat index := lastTokenId]),
                                       ownedTokenIndex := (ownedTokenIndex s)(lastTokenId := index) \<rparr>)
                        else Inl (Panic 50)
                   else Inr s) of
               Inl e \<Rightarrow> Inl e
             | Inr s1 \<Rightarrow>
                 if ownedTokens s1 a = [] then Inl (Panic 49)
                 else Inr (s1\<lparr> ownedTokens := (ownedTokens s1)(a := butlast (ownedTokens s1 a)),
                               ownedTokenIndex := (ownedTokenIndex s1)(tokenId := 0) \<rparr>))"

subsection \<open>Mutating operations\<close>

definition mint ::
  "validator \<Rightarrow> address \<Rightarrow> address \<Rightarrow> string \<Rightarrow> externalEaddress \<Rightarrow> bytes \<Rightarrow> state \<Rightarrow> uint256 result"
where
  "mint fromExternal this sender uri encryptedRealOwner inputProof s =
     (case fromExternal this sender encryptedRealOwner inputProof of
        None \<Rightarrow> Inl InvalidCiphertext
      | Some validatedRealOwner \<Rightarrow>
          let tokenId = nextTokenId s
          in case checked_inc (nextTokenId s) of
               Inl e \<Rightarrow> Inl e
             | Inr n \<Rightarrow>
                 let s1 = s\<lparr> nextTokenId := n \<rparr>;
                     s2 = s1\<lparr> tokens := (tokens s1)(tokenId :=
                             \<lparr> owner = sender, realOwner = validatedRealOwner, metadataURI = uri \<rparr>) \<rparr>
                 in case checked_inc (balances s2 sender) of
                      Inl e \<Rightarrow> Inl e
                    | Inr b \<Rightarrow>
                        let s3 = s2\<lparr> balances := (balances s2)(sender := b) \<rparr>;
                            s4 = s3\<lparr> ownedTokenIndex :=
                                       (ownedTokenIndex s3)(tokenId := array_length (ownedTokens s3 sender)) \<rparr>;
                            s5 = s4\<lparr> ownedTokens := (ownedTokens s4)(sender := ownedTokens s4 sender @ [tokenId]) \<rparr>;
                            s6 = FHE_allowThis this validatedRealOwner s5;
                            s7 = FHE_allow validatedRealOwner sender s6
                        in Inr (tokenId,
                                [Transfer 0 sender tokenId, Minted sender tokenId uri,
                                 DecryptPermissionGranted tokenId sender],
                                s7))"

definition grantDecryptPermission :: "address \<Rightarrow> uint256 \<Rightarrow> address \<Rightarrow> state \<Rightarrow> unit result" where
  "grantDecryptPermission sender tokenId account s =
     (case getToken s tokenId of
        Inl e \<Rightarrow> Inl e
      | Inr token \<Rightarrow>
          if sender \<noteq> owner token then Inl (Revert ''Caller is not token owner'')
          else if account = 0 then Inl (Revert ''Invalid account'')
          else Inr ((), [DecryptPermissionGranted tokenId account],
                    FHE_allow (realOwner token) account s))"

definition transferFrom :: "address \<Rightarrow> address \<Rightarrow> address \<Rightarrow> uint256 \<Rightarrow> state \<Rightarrow> unit result" where
  "transferFrom sender from to tokenId s =
     (case getToken s tokenId of
        Inl e \<Rightarrow> Inl e
      | Inr token \<Rightarrow>
          if owner token \<noteq> from then Inl (Revert ''Transfer from incorrect owner'')
          else if sender \<noteq> from then Inl (Revert ''Caller is not owner'')
          else if to = 0 then Inl (Revert ''Invalid receiver'')
          else case checked_dec (balances s from) of
                 Inl e \<Rightarrow> Inl e
               | Inr b1 \<Rightarrow>
                   let s1 = s\<lparr> balances := (balances s)(from := b1) \<rparr>
                   in case checked_inc (balances s1 to) of
                        Inl e \<Rightarrow> Inl e
                      | Inr b2 \<Rightarrow>
                          let s2 = s1\<lparr> balances := (balances s1)(to := b2) \<rparr>
                          in case removeOwnedToken from tokenId s2 of
                               Inl e \<Rightarrow> Inl e
                             | Inr s3 \<Rightarrow>
                                 let s4 = addOwnedToken to tokenId s3;
                                     s5 = s4\<lparr> tokens := (tokens s4)(tokenId := (tokens s4 tokenId)\<lparr> owner := to \<rparr>) \<rparr>;
                                     s6 = FHE_allow (realOwner (tokens s5 tokenId)) to s5
                                 in Inr ((), [Transfer from to tokenId, DecryptPermissionGranted tokenId to], s6))"

text \<open>
  The receiver check. \<open>codeLength\<close> is \<open>to.code.length\<close> and \<open>reply\<close> the outcome of the
  external call \<open>onERC721Received\<close>: \<open>None\<close> when it reverts. The expected value is the
  selector of \<open>onERC721Received(address,address,uint256,bytes)\<close>.
\<close>

definition onERC721Received_selector :: bytes4 where
  "onERC721Received_selector = 0x150b7a02"

definition checkOnERC721Received :: "nat \<Rightarrow> bytes4 option \<Rightarrow> bool" where
  "checkOnERC721Received codeLength reply =
     (if codeLength = 0 then True
      else case reply of Some retval \<Rightarrow> retval = onERC721Received_selector | None \<Rightarrow> False)"

text \<open>
  Both overloads of \<open>safeTransferFrom\<close> differ only in the data handed to the receiver,
  which the reply already accounts for.
\<close>

definition safeTransferFrom ::
  "nat \<Rightarrow> bytes4 option \<Rightarrow> address \<Rightarrow> address \<Rightarrow> address \<Rightarrow> uint256 \<Rightarrow> state \<Rightarrow> unit result"
where
  "safeTransferFrom codeLength reply sender from to tokenId s =
     (case transferFrom sender from to tokenId s of
        Inl e \<Rightarrow> Inl e
      | Inr r \<Rightarrow>
          if checkOnERC721Received codeLength reply then Inr r
          else Inl (Revert ''Invalid receiver''))"

text \<open>A transaction: a reverted call leaves the state as it was.\<close>

definition transact :: "(state \<Rightarrow> 'a result) \<Rightarrow> state \<Rightarrow> (error + 'a \<times> event list) \<times> state" where
  "transact f s = (case f s of Inl e \<Rightarrow> (Inl e, s) | Inr (r, evs, s') \<Rightarrow> (Inr (r, evs), s'))"

subsection \<open>Reachable states\<close>

text \<open>
  One successful state-changing call. The caller (\<open>msg.sender\<close>) of a call is an account
  or a contract and so never the zero address. The validation service and the receiver's
  reply are arbitrary. What a receiver's \<open>onERC721Received\<close> callback does to the ledger
  it does through calls of its own, which are further steps.
\<close>

inductive step :: "address \<Rightarrow> state \<Rightarrow> state \<Rightarrow> bool" for this :: address where
  step_mint:
    "sender \<noteq> 0 \<Longrightarrow> mint fromExternal this sender uri ct inputProof s = Inr (tokenId, evs, s') \<Longrightarrow> step this s s'"
| step_grant:
    "sender \<noteq> 0 \<Longrightarrow> grantDecryptPermission sender tokenId account s = Inr (u, evs, s') \<Longrightarrow> step this s s'"
| step_transfer:
    "sender \<noteq> 0 \<Longrightarrow> transferFrom sender from to tokenId s = Inr (u, evs, s') \<Longrightarrow> step this s s'"
| step_safeTransfer:
    "sender \<noteq> 0 \<Longrightarrow> safeTransferFrom codeLength reply sender from to tokenId s = Inr (u, evs, s')
     \<Longrightarrow> step this s s'"

definition reachable :: "address \<Rightarrow> state \<Rightarrow> bool" where
  "reachable this s = (step this)\<^sup>*\<^sup>* init s"

subsection \<open>The ledger invariant\<close>

text \<open>
  What every reachable state satisfies: the counter has not wrapped; a token exists
  exactly when its id has been allocated; a balance is the size of the owned set; an owned
  set lists, without repetition, exactly the tokens whose stored owner is that address;
  the reverse index gives each listed token its position; and the owned sets together
  hold as many tokens as were minted.
\<close>

definition ledger_inv :: "state \<Rightarrow> bool" where
  "ledger_inv s \<longleftrightarrow>
     nextTokenId s \<noteq> 0 \<and>
     (\<forall>t. owner (tokens s t) \<noteq> 0 \<longleftrightarrow> 0 < t \<and> t < nextTokenId s) \<and>
     (\<forall>a. unat (balances s a) = length (ownedTokens s a)) \<and>
     (\<forall>a. distinct (ownedTokens s a)) \<and>
     (\<forall>a t. t \<in> set (ownedTokens s a) \<longleftrightarrow> owner (tokens s t) = a \<and> a \<noteq> 0) \<and>
     (\<forall>a i. i < length (ownedTokens s a) \<longrightarrow> ownedTokenIndex s (ownedTokens s a ! i) = of_nat i) \<and>
     Suc (\<Sum>a\<in>UNIV. length (ownedTokens s a)) = unat (nextTokenId s)"

text \<open>The two balance updates of \<open>transferFrom\<close>, in the order the code makes them.\<close>

definition debit_credit :: "address \<Rightarrow> address \<Rightarrow> state \<Rightarrow> state" where
  "debit_credit a b s =
     s\<lparr> balances := ((balances s)(a := balances s a - 1))(b := ((balances s)(a := balances s a - 1)) b + 1) \<rparr>"

text \<open>
  The state after a successful \<open>transferFrom\<close> of token \<open>t\<close>, found at position \<open>i\<close> of
  the owned set of \<open>a\<close>, to \<open>b\<close>: what the code computes when the invariant holds.
\<close>

definition transferred :: "address \<Rightarrow> address \<Rightarrow> uint256 \<Rightarrow> nat \<Rightarrow> state \<Rightarrow> state" where
  "transferred a b t i s =
     (let xs = ownedTokens s a;
          rest = (ownedTokens s)(a := butlast (xs[i := last xs]))
      in s\<lparr> balances := balances (debit_credit a b s),
            ownedTokens := rest(b := rest b @ [t]),
            ownedTokenIndex := ((ownedTokenIndex s)(last xs := of_nat i))(t := of_nat (length (rest b))),
            tokens := (tokens s)(t := (tokens s t)\<lparr> owner := b \<rparr>),
            acl := insert (realOwner (tokens s t), b) (acl s) \<rparr>)"

subsection \<open>Concrete accounts and services\<close>

text \<open>The signers of the test suite, a contract address, and two validation services.\<close>

definition alice :: address where "alice = 0xA11CE"
definition bob :: address where "bob = 0xB0B"
definition carol :: address where "carol = 0xCA401"
definition ledger :: address where "ledger = 0x5AD0"

definition accept_all :: validator where
  "accept_all this sender ct inputProof = Some ct"

definition reject_all :: validator where
  "reject_all this sender ct inputProof = None"

text \<open>
  Two states of the test suite: \<open>minted\<close> after Alice has minted token 1 with handle 7,
  and \<open>moved\<close> after she has transferred it to Bob.
\<close>

definition minted :: state where
  "minted = \<lparr> nextTokenId = 2,
              tokens = (tokens init)(1 := \<lparr> owner = alice, realOwner = 7, metadataURI = ''ipfs://shadowmint/3'' \<rparr>),
              balances = (balances init)(alice := 1),
              ownedTokens = (ownedTokens init)(alice := [1]),
              ownedTokenIndex = (ownedTokenIndex init)(1 := 0),
              acl = {(7, alice), (7, ledger)} \<rparr>"

definition moved :: state where
  "moved = \<lparr> nextTokenId = 2,
             tokens = (tokens init)(1 := \<lparr> owner = bob, realOwner = 7, metadataURI = ''ipfs://shadowmint/3'' \<rparr>),
             balances = (balances init)(alice := 0, bob := 1),
             ownedTokens = (ownedTokens init)(alice := [], bob := [1]),
             ownedTokenIndex = (ownedTokenIndex init)(1 := 0),
             acl = {(7, bob), (7, alice), (7, ledger)} \<rparr>"

section \<open>Properties\<close>

subsection \<open>Words and lists\<close>

lemma unat_inc: "x \<noteq> (- 1 :: 'a::len word) \<Longrightarrow> unat (x + 1) = Suc (unat x)"
  by (simp add: add.commute add_eq_0_iff unatSuc)

lemma word_less_inc_iff: "n \<noteq> (- 1 :: 'a::len word) \<Longrightarrow> t < n + 1 \<longleftrightarrow> t < n \<or> t = n"
  by (simp add: word_less_nat_alt unat_inc less_Suc_eq word_unat_eq_iff)

lemma word_less_inc_self: "n \<noteq> (- 1 :: 'a::len word) \<Longrightarrow> n < n + 1"
  by (simp add: word_less_nat_alt unat_inc)

lemma of_nat_unat_small: "i < 2 ^ LENGTH('a) \<Longrightarrow> unat (of_nat i :: 'a::len word) = i"
  by (simp add: unat_of_nat)

lemma of_nat_eq_small: "i < 2 ^ LENGTH('a) \<Longrightarrow> j < 2 ^ LENGTH('a) \<Longrightarrow> (of_nat i :: 'a::len word) = of_nat j \<longleftrightarrow> i = j"
  by (metis of_nat_unat_small)

lemma sum_fun_upd:
  fixes f :: "'a \<Rightarrow> nat"
  assumes "finite A" "a \<in> A"
  shows "sum (f(a := v)) A + f a = sum f A + v"
proof -
  have "sum (f(a := v)) A = v + sum (f(a := v)) (A - {a})"
    using assms by (simp add: sum.remove)
  moreover have "sum f A = f a + sum f (A - {a})"
    using assms by (simp add: sum.remove)
  moreover have "sum (f(a := v)) (A - {a}) = sum f (A - {a})"
    by (rule sum.cong) auto
  ultimately show ?thesis by simp
qed

lemma swap_pop_snoc: "butlast ((ys @ [l])[i := l]) = (if i < length ys then ys[i := l] else ys)"
  by (simp add: list_update_append butlast_append split: nat.splits)

lemma swap_pop_set:
  assumes "distinct xs" "i < length xs"
  shows "set (butlast (xs[i := last xs])) = set xs - {xs ! i}"
proof -
  from assms(2) obtain ys l where xs: "xs = ys @ [l]"
    by (cases xs rule: rev_cases) auto
  show ?thesis
  proof (cases "i < length ys")
    case True
    then show ?thesis using assms(1)
      by (auto simp: xs swap_pop_snoc nth_append set_update_distinct)
  next
    case False
    then have "i = length ys" using assms(2) by (simp add: xs)
    then show ?thesis using assms(1) by (auto simp: xs swap_pop_snoc)
  qed
qed

lemma swap_pop_distinct:
  assumes "distinct xs" "i < length xs"
  shows "distinct (butlast (xs[i := last xs]))"
proof -
  from assms(2) obtain ys l where xs: "xs = ys @ [l]"
    by (cases xs rule: rev_cases) auto
  show ?thesis using assms(1)
    by (auto simp: xs swap_pop_snoc distinct_list_update)
qed

lemma swap_pop_nth:
  assumes "i < length xs" "j < length xs - 1"
  shows "butlast (xs[i := last xs]) ! j = (if j = i then last xs else xs ! j)"
  using assms by (simp add: nth_butlast)

subsection \<open>What a successful call has done\<close>

lemma getToken_Inr: "getToken s t = Inr tok \<longleftrightarrow> owner (tokens s t) \<noteq> 0 \<and> tok = tokens s t"
  by (auto simp: getToken_def Let_def)

lemma getToken_Inl: "getToken s t = Inl e \<longleftrightarrow> owner (tokens s t) = 0 \<and> e = Revert ''Token does not exist''"
  by (auto simp: getToken_def Let_def)

lemma removeOwnedToken_frame:
  assumes "removeOwnedToken a t s = Inr s'"
  shows "acl s' = acl s" "tokens s' = tokens s" "balances s' = balances s"
        "nextTokenId s' = nextTokenId s" "b \<noteq> a \<Longrightarrow> ownedTokens s' b = ownedTokens s b"
  using assms
  by (auto simp: removeOwnedToken_def Let_def split: sum.splits if_splits)

lemma transferFrom_decomp:
  assumes "transferFrom sender a b t s = Inr (u, evs, s')"
  shows "owner (tokens s t) = a \<and> a \<noteq> 0 \<and> sender = a \<and> b \<noteq> 0 \<and> balances s a \<noteq> 0 \<and>
         ((balances s)(a := balances s a - 1)) b \<noteq> - 1 \<and>
         (\<exists>s3. removeOwnedToken a t (debit_credit a b s) = Inr s3 \<and>
               s' = (addOwnedToken b t s3)\<lparr> tokens := (tokens s3)(t := (tokens s3 t)\<lparr> owner := b \<rparr>),
                                            acl := insert (realOwner (tokens s3 t), b) (acl s3) \<rparr>)"
  using assms
  by (auto simp: transferFrom_def getToken_def Let_def FHE_allow_def addOwnedToken_def debit_credit_def
                 checked_inc_def checked_dec_def
           split: sum.splits if_splits)

lemma transferFrom_InrD:
  assumes "transferFrom sender a b t s = Inr (u, evs, s')"
  shows "owner (tokens s t) = a" "a \<noteq> 0" "sender = a" "b \<noteq> 0"
    "acl s' = insert (realOwner (tokens s t), b) (acl s)"
    "tokens s' = (tokens s)(t := (tokens s t)\<lparr> owner := b \<rparr>)"
    "nextTokenId s' = nextTokenId s"
proof -
  from transferFrom_decomp[OF assms] obtain s3 where
    b: "owner (tokens s t) = a" "a \<noteq> 0" "sender = a" "b \<noteq> 0" and
    r: "removeOwnedToken a t (debit_credit a b s) = Inr s3" and
    s': "s' = (addOwnedToken b t s3)\<lparr> tokens := (tokens s3)(t := (tokens s3 t)\<lparr> owner := b \<rparr>),
                                            acl := insert (realOwner (tokens s3 t), b) (acl s3) \<rparr>"
    by blast
  note f = removeOwnedToken_frame[OF r]
  show "owner (tokens s t) = a" "a \<noteq> 0" "sender = a" "b \<noteq> 0" using b by auto
  show "acl s' = insert (realOwner (tokens s t), b) (acl s)"
    using f by (simp add: s' debit_credit_def addOwnedToken_def)
  show "tokens s' = (tokens s)(t := (tokens s t)\<lparr> owner := b \<rparr>)"
    using f by (simp add: s' debit_credit_def addOwnedToken_def)
  show "nextTokenId s' = nextTokenId s"
    using f by (simp add: s' debit_credit_def addOwnedToken_def)
qed

lemma grant_InrD:
  assumes "grantDecryptPermission sender t account s = Inr (u, evs, s')"
  shows "owner (tokens s t) = sender" "sender \<noteq> 0" "account \<noteq> 0"
     "s' = s\<lparr> acl := insert (realOwner (tokens s t), account) (acl s) \<rparr>"
  using assms
  by (auto simp: grantDecryptPermission_def getToken_def Let_def FHE_allow_def split: sum.splits if_splits)

lemma mint_InrD:
  assumes "mint fx this sender uri ct inputProof s = Inr (tid, evs, s')"
  shows "tid = nextTokenId s" "nextTokenId s \<noteq> - 1" "nextTokenId s' = nextTokenId s + 1"
    "\<exists>h. fx this sender ct inputProof = Some h \<and>
       tokens s' = (tokens s)(nextTokenId s := \<lparr> owner = sender, realOwner = h, metadataURI = uri \<rparr>) \<and>
       acl s' = insert (h, sender) (insert (h, this) (acl s))"
    "balances s sender \<noteq> - 1"
    "balances s' = (balances s)(sender := balances s sender + 1)"
    "ownedTokens s' = (ownedTokens s)(sender := ownedTokens s sender @ [nextTokenId s])"
    "ownedTokenIndex s' = (ownedTokenIndex s)(nextTokenId s := array_length (ownedTokens s sender))"
  using assms
  by (auto simp: mint_def Let_def FHE_allow_def FHE_allowThis_def checked_inc_def
           split: option.splits sum.splits if_splits)

lemma safeTransferFrom_InrD:
  "safeTransferFrom cl rp sender from to t s = Inr r \<Longrightarrow> transferFrom sender from to t s = Inr r"
  by (auto simp: safeTransferFrom_def split: sum.splits if_splits)

lemma step_acl_mono: "step this s s' \<Longrightarrow> acl s \<subseteq> acl s'"
proof (induction rule: step.induct)
  case (step_mint sender fx uri ct inputProof s tokenId evs s')
  from mint_InrD(4)[OF step_mint(2)] show ?case by auto
next
  case (step_grant sender tokenId account s u evs s')
  from grant_InrD(4)[OF step_grant(2)] show ?case by auto
next
  case (step_transfer sender a b tokenId s u evs s')
  from transferFrom_InrD(5)[OF step_transfer(2)] show ?case by auto
next
  case (step_safeTransfer sender codeLength reply a b tokenId s u evs s')
  from transferFrom_InrD(5)[OF safeTransferFrom_InrD[OF step_safeTransfer(2)]] show ?case by auto
qed

lemma steps_acl_mono: "(step this)\<^sup>*\<^sup>* s s' \<Longrightarrow> acl s \<subseteq> acl s'"
  by (induction rule: rtranclp_induct) (auto dest: step_acl_mono)

subsection \<open>The invariant holds in every reachable state\<close>

lemma ledger_inv_init: "ledger_inv init"
  by (auto simp add: ledger_inv_def init_def)

lemma ledger_invD:
  assumes "ledger_inv s"
  shows "nextTokenId s \<noteq> 0"
    and "owner (tokens s t) \<noteq> 0 \<longleftrightarrow> 0 < t \<and> t < nextTokenId s"
    and "unat (balances s a) = length (ownedTokens s a)"
    and "distinct (ownedTokens s a)"
    and "t \<in> set (ownedTokens s a) \<longleftrightarrow> owner (tokens s t) = a \<and> a \<noteq> 0"
    and "i < length (ownedTokens s a) \<Longrightarrow> ownedTokenIndex s (ownedTokens s a ! i) = of_nat i"
    and "Suc (\<Sum>a\<in>UNIV. length (ownedTokens s a)) = unat (nextTokenId s)"
  using assms unfolding ledger_inv_def by blast+

lemma sum_length_upd:
  fixes f :: "address \<Rightarrow> 'b list"
  shows "(\<Sum>c\<in>UNIV. length ((f(a := ys)) c)) + length (f a) = (\<Sum>c\<in>UNIV. length (f c)) + length ys"
proof -
  have eq: "(\<Sum>c\<in>UNIV. length ((f(a := ys)) c)) = sum ((\<lambda>c. length (f c))(a := length ys)) UNIV"
    by (rule sum.cong) auto
  show ?thesis
    unfolding eq by (rule sum_fun_upd) auto
qed

lemma owned_length_bound:
  assumes "ledger_inv s"
  shows "Suc (length (ownedTokens s a)) < 2 ^ 256"
proof -
  have "length (ownedTokens s a) \<le> (\<Sum>c\<in>UNIV. length (ownedTokens s c))"
    by (rule member_le_sum) auto
  moreover have "unat (nextTokenId s) < 2 ^ 256"
    using unsigned_less[of "nextTokenId s", where 'a=nat] by simp
  ultimately show ?thesis using ledger_invD(7)[OF assms] by linarith
qed

lemma balance_not_max:
  assumes "ledger_inv s"
  shows "balances s a \<noteq> - 1"
proof
  assume "balances s a = - 1"
  then have "unat (balances s a) = 2 ^ 256 - 1" by (simp add: unsigned_minus_1_eq_mask mask_eq_exp_minus_1)
  then show False
    using owned_length_bound[OF assms, of a] ledger_invD(3)[OF assms, of a] by simp
qed

lemma mint_preserves:
  assumes inv: "ledger_inv s" and nz: "sender \<noteq> 0"
    and m: "mint fx this sender uri ct inputProof s = Inr (tid, evs, s')"
  shows "ledger_inv s'"
proof -
  let ?n = "nextTokenId s"
  note d = mint_InrD[OF m]
  from d(4) obtain h where
    tok: "tokens s' = (tokens s)(?n := \<lparr> owner = sender, realOwner = h, metadataURI = uri \<rparr>)"
    by blast
  have n0: "?n \<noteq> 0" by (rule ledger_invD(1)[OF inv])
  have nmax: "?n \<noteq> - 1" by (rule d(2))
  have fresh: "owner (tokens s ?n) = 0"
    using ledger_invD(2)[OF inv, of ?n] by simp
  have notin: "?n \<notin> set (ownedTokens s c)" for c
    using ledger_invD(5)[OF inv, of ?n c] fresh by auto
  have i1: "nextTokenId s' \<noteq> 0"
    using word_less_inc_self[OF nmax] d(3) by (metis word_not_simps(1))
  have i2: "owner (tokens s' t) \<noteq> 0 \<longleftrightarrow> 0 < t \<and> t < nextTokenId s'" for t
    using ledger_invD(2)[OF inv, of t] nz n0
    by (auto simp: tok d(3) word_less_inc_iff[OF nmax] word_neq_0_conv)
  have i3: "unat (balances s' c) = length (ownedTokens s' c)" for c
    using ledger_invD(3)[OF inv, of c] by (auto simp add: d(6,7) unat_inc[OF d(5)])
  have i4: "distinct (ownedTokens s' c)" for c
    using ledger_invD(4)[OF inv, of c] notin by (auto simp add: d(7))
  have i5: "t \<in> set (ownedTokens s' c) \<longleftrightarrow> owner (tokens s' t) = c \<and> c \<noteq> 0" for c t
    using ledger_invD(5)[OF inv, of t c] notin[of c] nz by (auto simp: d(7) tok)
  have i6: "ownedTokenIndex s' (ownedTokens s' c ! i) = of_nat i" if "i < length (ownedTokens s' c)" for c i
  proof (cases "c = sender \<and> i = length (ownedTokens s sender)")
    case True
    then show ?thesis by (simp add: d(7,8) array_length_def)
  next
    case False
    then have lt: "i < length (ownedTokens s c)" using that by (auto simp: d(7) split: if_splits)
    then have eq: "ownedTokens s' c ! i = ownedTokens s c ! i" by (auto simp add: d(7) nth_append)
    have "ownedTokens s c ! i \<in> set (ownedTokens s c)" using lt by simp
    then have "ownedTokens s c ! i \<noteq> ?n" using notin by metis
    then show ?thesis using ledger_invD(6)[OF inv lt] by (simp add: eq d(8))
  qed
  have i7: "Suc (\<Sum>c\<in>UNIV. length (ownedTokens s' c)) = unat (nextTokenId s')"
    using sum_length_upd[of "ownedTokens s" sender "ownedTokens s sender @ [?n]"] ledger_invD(7)[OF inv]
    by (simp add: d(7) d(3) unat_inc[OF nmax])
  show ?thesis unfolding ledger_inv_def using i1 i2 i3 i4 i5 i6 i7 by blast
qed

lemma grant_preserves:
  assumes "ledger_inv s" "grantDecryptPermission sender t account s = Inr (u, evs, s')"
  shows "ledger_inv s'"
  using assms(1) unfolding grant_InrD(4)[OF assms(2)] ledger_inv_def by simp

lemma removeOwnedToken_ok:
  assumes dist: "distinct (ownedTokens s a)"
    and i: "i < length (ownedTokens s a)" and t: "ownedTokens s a ! i = t"
    and idx: "\<And>j. j < length (ownedTokens s a) \<Longrightarrow> ownedTokenIndex s (ownedTokens s a ! j) = of_nat j"
    and len: "length (ownedTokens s a) < 2 ^ 256"
  shows "removeOwnedToken a t s =
           Inr (s\<lparr> ownedTokens := (ownedTokens s)(a := butlast ((ownedTokens s a)[i := last (ownedTokens s a)])),
                   ownedTokenIndex := ((ownedTokenIndex s)(last (ownedTokens s a) := of_nat i))(t := 0) \<rparr>)"
proof -
  let ?xs = "ownedTokens s a"
  let ?n = "length ?xs"
  have ne: "?xs \<noteq> []" using i by auto
  have n0: "array_length ?xs \<noteq> 0"
    using ne len of_nat_eq_small[of ?n 0, where 'a=256] by (simp add: array_length_def)
  have li: "array_length ?xs - 1 = of_nat (?n - 1)"
    using i by (simp add: array_length_def of_nat_diff)
  have ul: "unat (array_length ?xs - 1) = ?n - 1"
  proof -
    have "?n - 1 < 2 ^ LENGTH(256)" using len by simp
    then show ?thesis unfolding li by (rule of_nat_unat_small)
  qed
  have ui: "unat (of_nat i :: uint256) = i"
    using len i by (simp add: of_nat_unat_small)
  have ix: "ownedTokenIndex s t = of_nat i" using idx[OF i] t by simp
  have last: "?xs ! (?n - 1) = last ?xs" using ne by (simp add: last_conv_nth)
  show ?thesis
  proof (cases "i = ?n - 1")
    case True
    then have tl: "last ?xs = t" using last t by simp
    have upd: "?xs[i := t] = ?xs" using t by (metis list_update_id)
    have eq: "ownedTokenIndex s t = array_length ?xs - 1" using True by (simp only: li ix)
    show ?thesis
      using ne n0 by (simp add: removeOwnedToken_def checked_dec_def eq upd tl)
  next
    case False
    then have "(of_nat i :: uint256) \<noteq> of_nat (?n - 1)"
      using of_nat_eq_small[of i "?n - 1", where 'a=256] i len by simp
    then have neq: "ownedTokenIndex s t \<noteq> array_length ?xs - 1" unfolding li ix .
    have ui': "unat (ownedTokenIndex s t) = i" by (simp only: ix ui)
    show ?thesis
      using i ne n0 neq by (simp add: removeOwnedToken_def checked_dec_def ul ui last_conv_nth Let_def ix)
  qed
qed

lemma owned_position:
  assumes inv: "ledger_inv s" and own: "owner (tokens s t) = a" and a: "a \<noteq> 0"
  shows "\<exists>i. i < length (ownedTokens s a) \<and> ownedTokens s a ! i = t"
proof -
  have "t \<in> set (ownedTokens s a)" using ledger_invD(5)[OF inv, of t a] own a by simp
  then show ?thesis by (auto simp: in_set_conv_nth)
qed

lemma transferFrom_ok:
  assumes inv: "ledger_inv s" and own: "owner (tokens s t) = a" and a: "a \<noteq> 0" and b: "b \<noteq> 0"
    and i: "i < length (ownedTokens s a)" and t: "ownedTokens s a ! i = t"
  shows "transferFrom a a b t s =
           Inr ((), [Transfer a b t, DecryptPermissionGranted t b], transferred a b t i s)"
proof -
  let ?s2 = "debit_credit a b s"
  have bal0: "balances s a \<noteq> 0"
    using ledger_invD(3)[OF inv, of a] i by (auto simp: unat_eq_0[symmetric] simp del: unat_eq_0)
  have nomax: "((balances s)(a := balances s a - 1)) b \<noteq> - 1"
  proof (cases "b = a")
    case True
    then show ?thesis using bal0 by simp
  next
    case False
    then show ?thesis using balance_not_max[OF inv, of b] by simp
  qed
  have ot: "ownedTokens ?s2 = ownedTokens s" "ownedTokenIndex ?s2 = ownedTokenIndex s"
    "tokens ?s2 = tokens s" "acl ?s2 = acl s"
    by (simp_all add: debit_credit_def)
  have len: "length (ownedTokens s a) < 2 ^ 256"
    using owned_length_bound[OF inv, of a] by simp
  have rm: "removeOwnedToken a t ?s2 =
           Inr (?s2\<lparr> ownedTokens := (ownedTokens s)(a := butlast ((ownedTokens s a)[i := last (ownedTokens s a)])),
                   ownedTokenIndex := ((ownedTokenIndex s)(last (ownedTokens s a) := of_nat i))(t := 0) \<rparr>)"
    using removeOwnedToken_ok[of ?s2 a i t] ledger_invD(4)[OF inv, of a] i t ledger_invD(6)[OF inv, of _ a] len
    by (simp add: ot)
  have gt: "getToken s t = Inr (tokens s t)" using own a by (simp add: getToken_Inr)
  have step1: "checked_dec (balances s a) = Inr (balances s a - 1)" using bal0 by (simp add: checked_dec_def)
  have step2: "checked_inc (((balances s)(a := balances s a - 1)) b) = Inr (((balances s)(a := balances s a - 1)) b + 1)"
    using nomax by (simp add: checked_inc_def)
  have s2: "s\<lparr>balances := ((balances s)(a := balances s a - 1))(b := ((balances s)(a := balances s a - 1)) b + 1)\<rparr> = ?s2"
    by (simp add: debit_credit_def)
  show ?thesis
    unfolding transferFrom_def gt using own b step1 step2 rm
    apply (simp add: Let_def s2 del: fun_upd_apply)
    apply (simp add: transferred_def addOwnedToken_def FHE_allow_def Let_def array_length_def debit_credit_def)
    done
qed

lemma transferred_fields:
  "nextTokenId (transferred a b t i s) = nextTokenId s"
  "tokens (transferred a b t i s) = (tokens s)(t := (tokens s t)\<lparr> owner := b \<rparr>)"
  "acl (transferred a b t i s) = insert (realOwner (tokens s t), b) (acl s)"
  "balances (transferred a b t i s) = balances (debit_credit a b s)"
  by (simp_all add: transferred_def Let_def)

lemma transferred_owned:
  "ownedTokens (transferred a b t i s) c =
     (if c = b then (if a = b then butlast ((ownedTokens s a)[i := last (ownedTokens s a)])
                     else ownedTokens s b) @ [t]
      else if c = a then butlast ((ownedTokens s a)[i := last (ownedTokens s a)])
      else ownedTokens s c)"
  by (simp add: transferred_def Let_def)

lemma transferred_index:
  "ownedTokenIndex (transferred a b t i s) u =
     (if u = t then of_nat (length (if a = b then butlast ((ownedTokens s a)[i := last (ownedTokens s a)])
                                    else ownedTokens s b))
      else if u = last (ownedTokens s a) then of_nat i
      else ownedTokenIndex s u)"
  by (simp add: transferred_def Let_def)

lemma transferred_inv:
  assumes inv: "ledger_inv s" and own: "owner (tokens s t) = a" and a: "a \<noteq> 0" and b: "b \<noteq> 0"
    and i: "i < length (ownedTokens s a)" and t: "ownedTokens s a ! i = t"
  shows "ledger_inv (transferred a b t i s)"
proof -
  let ?s' = "transferred a b t i s"
  let ?xs = "ownedTokens s a"
  let ?ys = "butlast (?xs[i := last ?xs])"
  note d = ledger_invD[OF inv]
  have dist: "distinct ?xs" by (rule d(4))
  have ne: "?xs \<noteq> []" using i by auto
  have ys_set: "set ?ys = set ?xs - {t}" using swap_pop_set[OF dist i] t by simp
  have ys_dist: "distinct ?ys" by (rule swap_pop_distinct[OF dist i])
  have ys_len: "Suc (length ?ys) = length ?xs" using i by simp
  have t_in: "t \<in> set ?xs" using i t by (metis nth_mem)
  have t_other: "t \<notin> set (ownedTokens s c)" if "c \<noteq> a" for c
    using d(5)[of t c] own that by auto
  have last_in: "last ?xs \<in> set ?xs" using ne by simp
  have last_other: "last ?xs \<notin> set (ownedTokens s c)" if "c \<noteq> a" for c
    using d(5)[of "last ?xs" c] d(5)[of "last ?xs" a] last_in that by auto
  have bal_a: "balances s a \<noteq> 0"
    using d(3)[of a] i by (auto simp: unat_eq_0[symmetric] simp del: unat_eq_0)
  have bal_b: "balances s b \<noteq> - 1" by (rule balance_not_max[OF inv])
  have i1: "nextTokenId ?s' \<noteq> 0" using d(1) by (simp add: transferred_fields)
  have i2: "owner (tokens ?s' u) \<noteq> 0 \<longleftrightarrow> 0 < u \<and> u < nextTokenId ?s'" for u
    using d(2)[of u] own a b by (auto simp: transferred_fields)
  have i3: "unat (balances ?s' c) = length (ownedTokens ?s' c)" for c
  proof (cases "a = b")
    case True
    then show ?thesis using d(3)[of c] bal_a ys_len
      by (auto simp: transferred_fields transferred_owned debit_credit_def)
  next
    case False
    then show ?thesis using d(3)[of c] d(3)[of a] d(3)[of b] bal_a bal_b ys_len
      by (auto simp: transferred_fields transferred_owned debit_credit_def unat_inc unat_minus_one)
  qed
  have i4: "distinct (ownedTokens ?s' c)" for c
    using d(4)[of c] ys_dist ys_set t_other[of b]
    by (auto simp: transferred_owned)
  have i5: "u \<in> set (ownedTokens ?s' c) \<longleftrightarrow> owner (tokens ?s' u) = c \<and> c \<noteq> 0" for c u
    using d(5)[of u c] d(5)[of u a] d(5)[of u b] ys_set own a b t_in
    by (auto simp: transferred_owned transferred_fields)
  have old_idx: "ownedTokenIndex ?s' (ownedTokens s c ! j) = of_nat j"
    if "c \<noteq> a" "j < length (ownedTokens s c)" for c j
  proof -
    have m: "ownedTokens s c ! j \<in> set (ownedTokens s c)" using that(2) by simp
    have "ownedTokens s c ! j \<noteq> t" using m t_other[OF that(1)] by metis
    moreover have "ownedTokens s c ! j \<noteq> last ?xs" using m last_other[OF that(1)] by metis
    ultimately show ?thesis using d(6)[OF that(2)] by (simp add: transferred_index)
  qed
  have ys_idx: "ownedTokenIndex ?s' (?ys ! j) = of_nat j" if "j < length ?ys" for j
  proof -
    have j: "j < length ?xs - 1" using that by simp
    have m: "?ys ! j \<in> set ?ys" using that by (metis nth_mem)
    then have nt: "?ys ! j \<noteq> t" using ys_set by auto
    show ?thesis
    proof (cases "j = i")
      case True
      then have "?ys ! j = last ?xs" using swap_pop_nth[OF i j] by simp
      then show ?thesis using nt True by (simp add: transferred_index)
    next
      case False
      then have e: "?ys ! j = ?xs ! j" using swap_pop_nth[OF i j] by simp
      have "?xs ! j \<noteq> last ?xs"
        using dist j ne by (simp add: last_conv_nth nth_eq_iff_index_eq)
      then show ?thesis using nt e d(6)[of j a] j by (simp add: transferred_index)
    qed
  qed
  have i6: "ownedTokenIndex ?s' (ownedTokens ?s' c ! j) = of_nat j" if "j < length (ownedTokens ?s' c)" for c j
  proof (cases "c = b")
    case cb: True
    show ?thesis
    proof (cases "a = b")
      case True
      then show ?thesis using that cb ys_idx[of j]
        by (auto simp: transferred_owned nth_append transferred_index less_Suc_eq simp del: length_butlast length_list_update)
    next
      case False
      then show ?thesis using that cb old_idx[of b j]
        by (auto simp: transferred_owned nth_append transferred_index less_Suc_eq)
    qed
  next
    case False
    then show ?thesis using that ys_idx[of j] old_idx[of c j]
      by (auto simp: transferred_owned split: if_splits)
  qed
  have i7: "Suc (\<Sum>c\<in>UNIV. length (ownedTokens ?s' c)) = unat (nextTokenId ?s')"
  proof -
    let ?rest = "(ownedTokens s)(a := ?ys)"
    have o: "ownedTokens ?s' = ?rest(b := ?rest b @ [t])" by (simp add: transferred_def Let_def)
    have 1: "(\<Sum>c\<in>UNIV. length (?rest c)) + length ?xs = (\<Sum>c\<in>UNIV. length (ownedTokens s c)) + length ?ys"
      by (rule sum_length_upd)
    have 2: "(\<Sum>c\<in>UNIV. length ((?rest(b := ?rest b @ [t])) c)) + length (?rest b)
             = (\<Sum>c\<in>UNIV. length (?rest c)) + length (?rest b @ [t])"
      by (rule sum_length_upd)
    have "(\<Sum>c\<in>UNIV. length (ownedTokens ?s' c)) = (\<Sum>c\<in>UNIV. length (ownedTokens s c))"
      unfolding o using 1 2 ys_len by simp
    then show ?thesis using d(7) by (simp add: transferred_fields)
  qed
  show ?thesis unfolding ledger_inv_def using i1 i2 i3 i4 i5 i6 i7 by blast
qed

lemma transferFrom_result:
  assumes inv: "ledger_inv s" and tr: "transferFrom sender a b t s = Inr (u, evs, s')"
  shows "\<exists>i. i < length (ownedTokens s a) \<and> ownedTokens s a ! i = t \<and> s' = transferred a b t i s \<and>
             evs = [Transfer a b t, DecryptPermissionGranted t b]"
proof -
  note d = transferFrom_InrD[OF tr]
  from owned_position[OF inv d(1) d(2)] obtain i where
    i: "i < length (ownedTokens s a)" "ownedTokens s a ! i = t" by blast
  from transferFrom_ok[OF inv d(1) d(2) d(4) i] tr d(3) have "s' = transferred a b t i s"
    "evs = [Transfer a b t, DecryptPermissionGranted t b]" by simp_all
  then show ?thesis using i by blast
qed

lemma transfer_preserves:
  assumes inv: "ledger_inv s" and tr: "transferFrom sender a b t s = Inr (u, evs, s')"
  shows "ledger_inv s'"
proof -
  note d = transferFrom_InrD[OF tr]
  from transferFrom_result[OF inv tr] obtain i where
    "i < length (ownedTokens s a)" "ownedTokens s a ! i = t" "s' = transferred a b t i s" by blast
  then show ?thesis using transferred_inv[OF inv d(1) d(2) d(4)] by simp
qed

lemma step_preserves: "step this s s' \<Longrightarrow> ledger_inv s \<Longrightarrow> ledger_inv s'"
proof (induction rule: step.induct)
  case (step_mint sender fx uri ct inputProof s tokenId evs s')
  then show ?case by (blast intro: mint_preserves)
next
  case (step_grant sender tokenId account s u evs s')
  then show ?case by (blast intro: grant_preserves)
next
  case (step_transfer sender a b tokenId s u evs s')
  then show ?case by (blast intro: transfer_preserves)
next
  case (step_safeTransfer sender codeLength reply a b tokenId s u evs s')
  then show ?case by (blast intro: transfer_preserves dest: safeTransferFrom_InrD)
qed

lemma steps_preserve: "(step this)\<^sup>*\<^sup>* s s' \<Longrightarrow> ledger_inv s \<Longrightarrow> ledger_inv s'"
  by (induction rule: rtranclp_induct) (auto intro: step_preserves)

lemma reachable_inv: "reachable this s \<Longrightarrow> ledger_inv s"
  unfolding reachable_def by (rule steps_preserve[OF _ ledger_inv_init])

lemma reachable_init: "reachable this init"
  by (simp add: reachable_def)

lemma reachable_step: "reachable this s \<Longrightarrow> step this s s' \<Longrightarrow> reachable this s'"
  unfolding reachable_def by (rule rtranclp.rtrancl_into_rtrancl)

subsection \<open>Concrete states and frame lemmas\<close>

lemma accounts_distinct:
  "alice \<noteq> 0" "bob \<noteq> 0" "carol \<noteq> 0" "alice \<noteq> bob" "bob \<noteq> alice" "alice \<noteq> carol" "carol \<noteq> alice"
  "bob \<noteq> carol" "carol \<noteq> bob"
  by (simp_all add: alice_def bob_def carol_def)

lemma mint_init:
  "mint accept_all ledger alice ''ipfs://shadowmint/3'' 7 [] init =
     Inr (1, [Transfer 0 alice 1, Minted alice 1 ''ipfs://shadowmint/3'', DecryptPermissionGranted 1 alice], minted)"
  by (simp add: mint_def init_def minted_def accept_all_def checked_inc_def array_length_def
                FHE_allow_def FHE_allowThis_def Let_def)

lemma transfer_minted:
  "transferFrom alice alice bob 1 minted =
     Inr ((), [Transfer alice bob 1, DecryptPermissionGranted 1 bob], moved)"
  using accounts_distinct
  by (simp add: transferFrom_def getToken_def removeOwnedToken_def addOwnedToken_def minted_def moved_def init_def
                checked_inc_def checked_dec_def array_length_def FHE_allow_def Let_def)

lemma transfer_to_self_minted:
  "transferFrom alice alice alice 1 minted =
     Inr ((), [Transfer alice alice 1, DecryptPermissionGranted 1 alice], minted)"
  using accounts_distinct
  by (simp add: transferFrom_def getToken_def removeOwnedToken_def addOwnedToken_def minted_def init_def
                checked_inc_def checked_dec_def array_length_def FHE_allow_def Let_def insert_absorb)

lemma reachable_minted: "reachable ledger minted"
  by (rule reachable_step[OF reachable_init step_mint[OF accounts_distinct(1) mint_init]])

lemma step_minted_moved: "step ledger minted moved"
  by (rule step_transfer[OF accounts_distinct(1) transfer_minted])

lemma reachable_moved: "reachable ledger moved"
  by (rule reachable_step[OF reachable_minted step_minted_moved])

lemma count_list_distinct: "distinct xs \<Longrightarrow> x \<in> set xs \<Longrightarrow> count_list xs x = 1"
  by (induction xs) auto

lemma steps_counter_mono: "(step this)\<^sup>*\<^sup>* s s' \<Longrightarrow> unat (nextTokenId s) \<le> unat (nextTokenId s')"
proof (induction rule: rtranclp_induct)
  case base
  show ?case by simp
next
  case (step y z)
  from step(2) have "unat (nextTokenId y) \<le> unat (nextTokenId z)"
  proof (cases rule: step.cases)
    case (step_mint sender fx uri ct inputProof tokenId evs)
    then show ?thesis using mint_InrD(2,3)[OF step_mint(2)] by (simp add: unat_inc)
  next
    case (step_grant sender tokenId account u evs)
    then show ?thesis using grant_InrD(4)[OF step_grant(2)] by simp
  next
    case (step_transfer sender a b tokenId u evs)
    then show ?thesis using transferFrom_InrD(7)[OF step_transfer(2)] by simp
  next
    case (step_safeTransfer sender codeLength reply a b tokenId u evs)
    then show ?thesis using transferFrom_InrD(7)[OF safeTransferFrom_InrD[OF step_safeTransfer(2)]] by simp
  qed
  then show ?case using step(3) by simp
qed

lemma step_token_frame:
  assumes "step this s s'" "ledger_inv s" "owner (tokens s t) \<noteq> 0"
  shows "realOwner (tokens s' t) = realOwner (tokens s t) \<and> metadataURI (tokens s' t) = metadataURI (tokens s t)
         \<and> owner (tokens s' t) \<noteq> 0"
  using assms(1)
proof (cases rule: step.cases)
  case (step_mint sender fx uri ct inputProof tokenId evs)
  have "t \<noteq> nextTokenId s" using ledger_invD(2)[OF assms(2), of t] assms(3) by auto
  then show ?thesis using mint_InrD(4)[OF step_mint(2)] assms(3) by auto
next
  case (step_grant sender tokenId account u evs)
  then show ?thesis using grant_InrD(4)[OF step_grant(2)] assms(3) by simp
next
  case (step_transfer sender a b tokenId u evs)
  then show ?thesis using transferFrom_InrD(4,6)[OF step_transfer(2)] assms(3) by simp
next
  case (step_safeTransfer sender codeLength reply a b tokenId u evs)
  then show ?thesis using transferFrom_InrD(4,6)[OF safeTransferFrom_InrD[OF step_safeTransfer(2)]] assms(3) by simp
qed

lemma steps_token_frame:
  assumes "(step this)\<^sup>*\<^sup>* s s'" "ledger_inv s" "owner (tokens s t) \<noteq> 0"
  shows "realOwner (tokens s' t) = realOwner (tokens s t) \<and> metadataURI (tokens s' t) = metadataURI (tokens s t)
         \<and> owner (tokens s' t) \<noteq> 0"
  using assms
proof (induction rule: rtranclp_induct)
  case base
  then show ?case by simp
next
  case (step y z)
  then have y: "realOwner (tokens y t) = realOwner (tokens s t) \<and> metadataURI (tokens y t) = metadataURI (tokens s t)
         \<and> owner (tokens y t) \<noteq> 0" by simp
  have "ledger_inv y" using steps_preserve[OF step(1) step(4)] .
  from step_token_frame[OF step(2) this] y show ?case by simp
qed

lemma zero_owns_nothing:
  assumes "ledger_inv s"
  shows "ownedTokens s 0 = []" "balances s 0 = 0"
proof -
  have "t \<notin> set (ownedTokens s 0)" for t using ledger_invD(5)[OF assms, of t 0] by simp
  then show e: "ownedTokens s 0 = []" by (cases "ownedTokens s 0") force+
  show "balances s 0 = 0" using ledger_invD(3)[OF assms, of 0] e by (simp add: unat_eq_0)
qed

lemma balances_sum:
  assumes "ledger_inv s"
  shows "(\<Sum>a\<in>{a. a \<noteq> 0}. unat (balances s a)) = unat (nextTokenId s - 1)"
proof -
  have z: "unat (balances s 0) = 0" using zero_owns_nothing(2)[OF assms] by simp
  have "{a :: address. a \<noteq> 0} = UNIV - {0}" by auto
  then have "(\<Sum>a\<in>{a. a \<noteq> 0}. unat (balances s a)) = (\<Sum>a\<in>UNIV - {0}. unat (balances s a))" by simp
  also have "\<dots> = (\<Sum>a\<in>UNIV. unat (balances s a))"
    using z by (simp add: sum_diff1_nat)
  also have "\<dots> = (\<Sum>a\<in>UNIV. length (ownedTokens s a))"
    by (rule sum.cong) (simp_all add: ledger_invD(3)[OF assms])
  also have "\<dots> = unat (nextTokenId s - 1)"
    using ledger_invD(7)[OF assms] ledger_invD(1)[OF assms] by (simp add: unat_minus_one)
  finally show ?thesis .
qed

lemma ownerOf_Inr: "ownerOf s t = Inr a \<longleftrightarrow> owner (tokens s t) = a \<and> a \<noteq> 0"
  by (auto simp: ownerOf_def Let_def)

section \<open>The claims\<close>

text \<open>
  C1. In every state reached from the freshly deployed one by successful calls, the
  balances that \<open>balanceOf\<close> returns, summed over all addresses it accepts (the zero
  address holds nothing), equal what \<open>totalSupply()\<close> returns, which is
  \<open>nextTokenId - 1\<close>.
\<close>

theorem balances_sum_to_totalSupply:
  assumes "reachable this s"
  shows "totalSupply s = Inr (nextTokenId s - 1) \<and>
         (\<forall>a. a \<noteq> 0 \<longrightarrow> balanceOf s a = Inr (balances s a)) \<and>
         balances s 0 = 0 \<and>
         (\<Sum>a\<in>{a. a \<noteq> 0}. unat (balances s a)) = unat (nextTokenId s - 1)"
proof -
  note inv = reachable_inv[OF assms]
  have "totalSupply s = Inr (nextTokenId s - 1)"
    using ledger_invD(1)[OF inv] by (simp add: totalSupply_def checked_dec_def)
  moreover have "\<forall>a. a \<noteq> 0 \<longrightarrow> balanceOf s a = Inr (balances s a)"
    by (simp add: balanceOf_def)
  ultimately show ?thesis using zero_owns_nothing(2)[OF inv] balances_sum[OF inv] by blast
qed

theorem balances_sum_to_totalSupply_witness:
  "reachable ledger moved \<and> totalSupply moved = Inr 1 \<and> balanceOf moved bob = Inr 1 \<and>
   balanceOf moved alice = Inr 0 \<and> (\<Sum>a\<in>{a. a \<noteq> 0}. unat (balances moved a)) = 1"
proof -
  have n: "nextTokenId moved - 1 = 1" by (simp add: moved_def)
  have b: "balances moved bob = 1" "balances moved alice = 0"
    using accounts_distinct by (simp_all add: moved_def init_def)
  from balances_sum_to_totalSupply[OF reachable_moved] reachable_moved accounts_distinct(1,2)
  show ?thesis by (simp add: n b)
qed

text \<open>
  C2 as stated fails for a transfer to oneself: Alice transferring her token 1 to Alice
  succeeds and leaves the state as it was, so her balance has not decreased and
  \<open>tokensOfOwner(Alice)\<close> still contains the token.
\<close>

theorem transfer_effects_counterexample:
  "reachable ledger minted \<and> ownerOf minted 1 = Inr alice \<and>
   transferFrom alice alice alice 1 minted =
     Inr ((), [Transfer alice alice 1, DecryptPermissionGranted 1 alice], minted) \<and>
   balanceOf minted alice = Inr 1 \<and> 1 \<in> set (tokensOfOwner minted alice)"
  using reachable_minted transfer_to_self_minted accounts_distinct(1)
  by (simp add: ownerOf_def balanceOf_def tokensOfOwner_def minted_def)

text \<open>
  C2, amended. In every reachable state in which token \<open>id\<close> exists and \<open>ownerOf(id) = A\<close>,
  after a successful \<open>transferFrom(A, B, id)\<close> called by A, with B different from A:
  \<open>ownerOf(id) = B\<close>, \<open>balanceOf(A)\<close> has decreased by one, \<open>balanceOf(B)\<close> has increased by
  one, \<open>tokensOfOwner(A)\<close> no longer contains \<open>id\<close>, \<open>tokensOfOwner(B)\<close> contains it exactly
  once, the pair (handle of \<open>id\<close>, B) is in the decrypt-permission relation, and every
  grant present before, A's included, is still present.
\<close>

theorem transfer_effects:
  assumes "reachable this s" and "ownerOf s tokenId = Inr A" and "A \<noteq> B"
    and "transferFrom A A B tokenId s = Inr (u, evs, s')"
  shows "ownerOf s' tokenId = Inr B \<and>
         balanceOf s A = Inr (balances s A) \<and> balanceOf s' A = Inr (balances s' A) \<and>
         Suc (unat (balances s' A)) = unat (balances s A) \<and>
         balanceOf s B = Inr (balances s B) \<and> balanceOf s' B = Inr (balances s' B) \<and>
         unat (balances s' B) = Suc (unat (balances s B)) \<and>
         tokenId \<notin> set (tokensOfOwner s' A) \<and>
         count_list (tokensOfOwner s' B) tokenId = 1 \<and>
         (\<exists>h. getEncryptedRealOwner s tokenId = Inr h \<and> (h, B) \<in> acl s' \<and> acl s \<subseteq> acl s')"
proof -
  note inv = reachable_inv[OF assms(1)]
  note d = transferFrom_InrD[OF assms(4)]
  note inv' = transfer_preserves[OF inv assms(4)]
  from transferFrom_result[OF inv assms(4)] obtain i where
    i: "i < length (ownedTokens s A)" "ownedTokens s A ! i = tokenId" and s': "s' = transferred A B tokenId i s"
    by blast
  have own': "owner (tokens s' tokenId) = B" by (simp add: d(6))
  have c1: "ownerOf s' tokenId = Inr B" using own' d(4) by (simp add: ownerOf_Inr)
  have c2: "balanceOf s A = Inr (balances s A)" "balanceOf s' A = Inr (balances s' A)"
    "balanceOf s B = Inr (balances s B)" "balanceOf s' B = Inr (balances s' B)"
    using d(2,4) by (simp_all add: balanceOf_def)
  have lenA: "Suc (length (ownedTokens s' A)) = length (ownedTokens s A)"
    using i(1) assms(3) by (simp add: s' transferred_owned)
  have lenB: "length (ownedTokens s' B) = Suc (length (ownedTokens s B))"
    using assms(3) by (simp add: s' transferred_owned)
  have c3: "Suc (unat (balances s' A)) = unat (balances s A)"
    using lenA by (simp add: ledger_invD(3)[OF inv] ledger_invD(3)[OF inv'])
  have c4: "unat (balances s' B) = Suc (unat (balances s B))"
    using lenB by (simp add: ledger_invD(3)[OF inv] ledger_invD(3)[OF inv'])
  have c5: "tokenId \<notin> set (tokensOfOwner s' A)"
    using ledger_invD(5)[OF inv', of tokenId A] own' assms(3) by (simp add: tokensOfOwner_def)
  have "tokenId \<in> set (ownedTokens s' B)"
    using ledger_invD(5)[OF inv', of tokenId B] own' d(4) by simp
  then have c6: "count_list (tokensOfOwner s' B) tokenId = 1"
    unfolding tokensOfOwner_def by (rule count_list_distinct[OF ledger_invD(4)[OF inv']])
  have c7: "getEncryptedRealOwner s tokenId = Inr (realOwner (tokens s tokenId))"
    using d(1,2) by (simp add: getEncryptedRealOwner_def getToken_def)
  have c8: "(realOwner (tokens s tokenId), B) \<in> acl s'" "acl s \<subseteq> acl s'"
    by (auto simp: d(5))
  from c7 c8 have c9: "\<exists>h. getEncryptedRealOwner s tokenId = Inr h \<and> (h, B) \<in> acl s' \<and> acl s \<subseteq> acl s'"
    by blast
  show ?thesis using c1 c2 c3 c4 c5 c6 c9 by blast
qed

theorem transfer_effects_witness:
  "reachable ledger minted \<and> ownerOf minted 1 = Inr alice \<and> alice \<noteq> bob \<and>
   transferFrom alice alice bob 1 minted =
     Inr ((), [Transfer alice bob 1, DecryptPermissionGranted 1 bob], moved) \<and>
   ownerOf moved 1 = Inr bob \<and>
   Suc (unat (balances moved alice)) = unat (balances minted alice) \<and>
   unat (balances moved bob) = Suc (unat (balances minted bob)) \<and>
   1 \<notin> set (tokensOfOwner moved alice) \<and> count_list (tokensOfOwner moved bob) 1 = 1 \<and>
   acl minted \<subseteq> acl moved"
proof -
  have o: "ownerOf minted 1 = Inr alice"
    using accounts_distinct by (simp add: ownerOf_def minted_def)
  from transfer_effects[OF reachable_minted o accounts_distinct(4) transfer_minted]
       reachable_minted o accounts_distinct(4) transfer_minted
  show ?thesis by blast
qed

text \<open>
  C3. From every reachable state on, through any sequence of successful \<open>mint\<close>,
  \<open>grantDecryptPermission\<close>, \<open>transferFrom\<close> and \<open>safeTransferFrom\<close> calls, a pair (handle,
  address) that is in the decrypt-permission relation stays in it: no operation removes a
  grant.
\<close>

theorem grants_never_removed:
  assumes "reachable this s" and "(step this)\<^sup>*\<^sup>* s s'" and "(h, account) \<in> acl s"
  shows "(h, account) \<in> acl s'"
  using steps_acl_mono[OF assms(2)] assms(3) by blast

theorem grants_never_removed_witness:
  "reachable ledger minted \<and> (step ledger)\<^sup>*\<^sup>* minted moved \<and> (7, alice) \<in> acl minted \<and> (7, alice) \<in> acl moved"
proof -
  have s: "(step ledger)\<^sup>*\<^sup>* minted moved" using step_minted_moved by blast
  have a: "(7, alice) \<in> acl minted" by (simp add: minted_def)
  from grants_never_removed[OF reachable_minted s a] reachable_minted s a show ?thesis by blast
qed

text \<open>
  C4. After a successful \<open>mint(uri, ct, proof)\<close> by a caller A (never the zero address)
  in a reachable state: the returned id is the value of the counter before the call; the counter starts at 1, the id
  was not in use, the counter moves to the next integer without wrapping and every later
  mint returns a larger id; \<open>ownerOf(newId) = A\<close>; \<open>balanceOf(A)\<close> has grown by one;
  \<open>tokensOfOwner(A)\<close> contains \<open>newId\<close> exactly once; \<open>tokenURI(newId) = uri\<close>; and both the
  contract and A hold a grant on the stored handle.
\<close>

theorem mint_effects:
  assumes "reachable this s" and "A \<noteq> 0"
    and "mint fromExternal this A uri ct inputProof s = Inr (newId, evs, s')"
  shows "newId = nextTokenId s \<and> nextTokenId init = 1 \<and>
         ownerOf s newId = Inl (Revert ''Token does not exist'') \<and>
         unat (nextTokenId s') = Suc (unat newId) \<and>
         (\<forall>s'' fx B uri' ct' proof' id2 evs2 s3.
            (step this)\<^sup>*\<^sup>* s' s'' \<longrightarrow> mint fx this B uri' ct' proof' s'' = Inr (id2, evs2, s3)
            \<longrightarrow> newId < id2) \<and>
         ownerOf s' newId = Inr A \<and>
         balanceOf s A = Inr (balances s A) \<and> balanceOf s' A = Inr (balances s' A) \<and>
         unat (balances s' A) = Suc (unat (balances s A)) \<and>
         count_list (tokensOfOwner s' A) newId = 1 \<and>
         tokenURI s' newId = Inr uri \<and>
         (\<exists>h. fromExternal this A ct inputProof = Some h \<and> getEncryptedRealOwner s' newId = Inr h \<and>
              (h, this) \<in> acl s' \<and> (h, A) \<in> acl s')"
proof -
  note inv = reachable_inv[OF assms(1)]
  note d = mint_InrD[OF assms(3)]
  note inv' = mint_preserves[OF inv assms(2,3)]
  from d(4) obtain h where h: "fromExternal this A ct inputProof = Some h"
    and tok: "tokens s' = (tokens s)(nextTokenId s := \<lparr> owner = A, realOwner = h, metadataURI = uri \<rparr>)"
    and ac: "acl s' = insert (h, A) (insert (h, this) (acl s))" by blast
  have fresh: "owner (tokens s (nextTokenId s)) = 0"
    using ledger_invD(2)[OF inv, of "nextTokenId s"] by simp
  have c1: "ownerOf s newId = Inl (Revert ''Token does not exist'')"
    using fresh by (simp add: d(1) ownerOf_def)
  have c2: "unat (nextTokenId s') = Suc (unat newId)"
    by (simp add: d(1) d(3) unat_inc[OF d(2)])
  have c3: "newId < id2"
    if "(step this)\<^sup>*\<^sup>* s' s''" "mint fx this B uri' ct' proof' s'' = Inr (id2, evs2, s3)"
    for s'' fx B uri' ct' proof' id2 evs2 s3
    using steps_counter_mono[OF that(1)] mint_InrD(1)[OF that(2)] c2 by (simp add: word_less_nat_alt)
  have c4: "ownerOf s' newId = Inr A"
    using assms(2) by (simp add: ownerOf_def tok d(1))
  have c5: "balanceOf s A = Inr (balances s A)" "balanceOf s' A = Inr (balances s' A)"
    using assms(2) by (simp_all add: balanceOf_def)
  have c6: "unat (balances s' A) = Suc (unat (balances s A))"
    by (simp add: d(6) unat_inc[OF d(5)])
  have c7: "count_list (tokensOfOwner s' A) newId = 1"
    unfolding tokensOfOwner_def
    by (rule count_list_distinct[OF ledger_invD(4)[OF inv']]) (simp add: d(1) d(7))
  have c8: "tokenURI s' newId = Inr uri" "getEncryptedRealOwner s' newId = Inr h"
    using assms(2) by (simp_all add: tokenURI_def getEncryptedRealOwner_def getToken_def tok d(1))
  have c9: "(h, this) \<in> acl s'" "(h, A) \<in> acl s'" by (simp_all add: ac)
  have c0: "nextTokenId init = 1" by (simp add: init_def)
  from c3 have c3': "\<forall>s'' fx B uri' ct' proof' id2 evs2 s3.
            (step this)\<^sup>*\<^sup>* s' s'' \<longrightarrow> mint fx this B uri' ct' proof' s'' = Inr (id2, evs2, s3)
            \<longrightarrow> newId < id2" by blast
  from h c8(2) c9 have c10: "\<exists>h. fromExternal this A ct inputProof = Some h \<and>
      getEncryptedRealOwner s' newId = Inr h \<and> (h, this) \<in> acl s' \<and> (h, A) \<in> acl s'" by blast
  show ?thesis using d(1) c0 c1 c2 c3' c4 c5 c6 c7 c8(1) c10 by blast
qed

theorem mint_effects_witness:
  "reachable ledger init \<and> alice \<noteq> 0 \<and>
   mint accept_all ledger alice ''ipfs://shadowmint/3'' 7 [] init =
     Inr (1, [Transfer 0 alice 1, Minted alice 1 ''ipfs://shadowmint/3'', DecryptPermissionGranted 1 alice], minted) \<and>
   ownerOf minted 1 = Inr alice \<and> unat (balances minted alice) = Suc (unat (balances init alice)) \<and>
   count_list (tokensOfOwner minted alice) 1 = 1 \<and> tokenURI minted 1 = Inr ''ipfs://shadowmint/3''"
  using mint_effects[OF reachable_init accounts_distinct(1) mint_init] reachable_init accounts_distinct(1) mint_init
  by blast

text \<open>
  C5. \<open>transferFrom(from, to, id)\<close> checks its preconditions in this order and fails with
  the first one violated: the token must exist (\<open>NotFound\<close>, "Token does not exist"); the
  stored owner must equal \<open>from\<close> (\<open>InconsistentState\<close>, "Transfer from incorrect owner");
  the caller must equal \<open>from\<close> (\<open>Unauthorized\<close>, "Caller is not owner"); \<open>to\<close> must be
  non-zero (\<open>InvalidArgument\<close>, the \<open>require\<close> with message "Invalid receiver"). Whenever
  the call fails, the state is the one from before the call.
\<close>

theorem transferFrom_checks_in_order:
  "(owner (tokens s tokenId) = 0 \<longrightarrow>
      transact (transferFrom sender a b tokenId) s = (Inl (Revert ''Token does not exist''), s)) \<and>
   (owner (tokens s tokenId) \<noteq> 0 \<and> owner (tokens s tokenId) \<noteq> a \<longrightarrow>
      transact (transferFrom sender a b tokenId) s = (Inl (Revert ''Transfer from incorrect owner''), s)) \<and>
   (owner (tokens s tokenId) \<noteq> 0 \<and> owner (tokens s tokenId) = a \<and> sender \<noteq> a \<longrightarrow>
      transact (transferFrom sender a b tokenId) s = (Inl (Revert ''Caller is not owner''), s)) \<and>
   (owner (tokens s tokenId) \<noteq> 0 \<and> owner (tokens s tokenId) = a \<and> sender = a \<and> b = 0 \<longrightarrow>
      transact (transferFrom sender a b tokenId) s = (Inl (Revert ''Invalid receiver''), s)) \<and>
   (\<forall>e. fst (transact (transferFrom sender a b tokenId) s) = Inl e \<longrightarrow>
      snd (transact (transferFrom sender a b tokenId) s) = s)"
  by (auto simp: transact_def transferFrom_def getToken_def Let_def split: sum.splits)

theorem transferFrom_checks_in_order_witness:
  "transact (transferFrom carol carol carol 5) minted = (Inl (Revert ''Token does not exist''), minted) \<and>
   transact (transferFrom carol bob carol 1) minted = (Inl (Revert ''Transfer from incorrect owner''), minted) \<and>
   transact (transferFrom carol alice carol 1) minted = (Inl (Revert ''Caller is not owner''), minted) \<and>
   transact (transferFrom alice alice 0 1) minted = (Inl (Revert ''Invalid receiver''), minted) \<and>
   snd (transact (transferFrom carol alice carol 1) minted) = minted"
proof -
  have o: "owner (tokens minted 5) = 0" "owner (tokens minted 1) \<noteq> 0" "owner (tokens minted 1) = alice"
    using accounts_distinct by (simp_all add: minted_def init_def)
  note n = accounts_distinct
  have 1: "transact (transferFrom carol carol carol 5) minted = (Inl (Revert ''Token does not exist''), minted)"
    using transferFrom_checks_in_order[of minted 5 carol carol carol] o by simp
  have 2: "transact (transferFrom carol bob carol 1) minted
             = (Inl (Revert ''Transfer from incorrect owner''), minted)"
    using transferFrom_checks_in_order[of minted 1 carol bob carol] o n by simp
  have 3: "transact (transferFrom carol alice carol 1) minted = (Inl (Revert ''Caller is not owner''), minted)"
    using transferFrom_checks_in_order[of minted 1 carol alice carol] o n by simp
  have 4: "transact (transferFrom alice alice 0 1) minted = (Inl (Revert ''Invalid receiver''), minted)"
    using transferFrom_checks_in_order[of minted 1 alice alice 0] o n by simp
  have 5: "snd (transact (transferFrom carol alice carol 1) minted) = minted"
    using transferFrom_checks_in_order[of minted 1 carol alice carol] 3 by simp
  from 1 2 3 4 5 show ?thesis by blast
qed

text \<open>
  C6. If validation of the ciphertext and proof fails, \<open>mint\<close> fails with
  \<open>InvalidCiphertext\<close> and changes no state; no id is consumed: a mint that succeeds next
  returns the counter value of the state before the failed call, the id the failed mint
  would have returned.
\<close>

theorem mint_invalid_ciphertext:
  assumes "fromExternal this sender ct inputProof = None"
  shows "transact (mint fromExternal this sender uri ct inputProof) s = (Inl InvalidCiphertext, s) \<and>
         (\<forall>fx caller uri' ct' proof' newId evs s'.
            mint fx this caller uri' ct' proof' (snd (transact (mint fromExternal this sender uri ct inputProof) s))
              = Inr (newId, evs, s')
            \<longrightarrow> newId = nextTokenId s)"
proof -
  have f: "transact (mint fromExternal this sender uri ct inputProof) s = (Inl InvalidCiphertext, s)"
    using assms by (simp add: transact_def mint_def)
  then have "snd (transact (mint fromExternal this sender uri ct inputProof) s) = s" by simp
  then show ?thesis using f by (auto dest: mint_InrD(1))
qed

theorem mint_invalid_ciphertext_witness:
  "reject_all ledger alice 7 [] = None \<and>
   transact (mint reject_all ledger alice ''ipfs://shadowmint/3'' 7 []) init = (Inl InvalidCiphertext, init) \<and>
   mint accept_all ledger alice ''ipfs://shadowmint/3'' 7 [] init =
     Inr (1, [Transfer 0 alice 1, Minted alice 1 ''ipfs://shadowmint/3'', DecryptPermissionGranted 1 alice], minted) \<and>
   (1 :: uint256) = nextTokenId init"
proof -
  have r: "reject_all ledger alice 7 [] = None" by (simp add: reject_all_def)
  note w = mint_invalid_ciphertext[of reject_all ledger alice 7 "[]" "''ipfs://shadowmint/3''" init, OF r]
  from w have "snd (transact (mint reject_all ledger alice ''ipfs://shadowmint/3'' 7 []) init) = init" by simp
  with w mint_init have "(1 :: uint256) = nextTokenId init" by metis
  with r w mint_init show ?thesis by simp
qed

text \<open>
  C7. In every state in which the caller A owns the existing token \<open>id\<close> and the account B
  is non-zero, \<open>grantDecryptPermission(id, B)\<close> succeeds, adds the pair (the handle of
  \<open>id\<close>, B) to the decrypt-permission relation, and is idempotent: a second call in
  succession succeeds and leaves the state reached by the first.
\<close>

theorem grantDecryptPermission_idempotent:
  assumes "ownerOf s tokenId = Inr A" and "B \<noteq> 0"
  shows "\<exists>h s1. getEncryptedRealOwner s tokenId = Inr h \<and>
           grantDecryptPermission A tokenId B s = Inr ((), [DecryptPermissionGranted tokenId B], s1) \<and>
           acl s1 = insert (h, B) (acl s) \<and>
           grantDecryptPermission A tokenId B s1 = Inr ((), [DecryptPermissionGranted tokenId B], s1)"
  using assms
  by (auto simp: ownerOf_def getEncryptedRealOwner_def grantDecryptPermission_def getToken_def
                 FHE_allow_def Let_def split: if_splits)

theorem grantDecryptPermission_idempotent_witness:
  "ownerOf minted 1 = Inr alice \<and> carol \<noteq> 0 \<and>
   (\<exists>h s1. getEncryptedRealOwner minted 1 = Inr h \<and>
           grantDecryptPermission alice 1 carol minted = Inr ((), [DecryptPermissionGranted 1 carol], s1) \<and>
           acl s1 = insert (h, carol) (acl minted) \<and>
           grantDecryptPermission alice 1 carol s1 = Inr ((), [DecryptPermissionGranted 1 carol], s1))"
proof -
  have o: "ownerOf minted 1 = Inr alice"
    using accounts_distinct by (simp add: ownerOf_def minted_def)
  from grantDecryptPermission_idempotent[OF o accounts_distinct(3)] o accounts_distinct(3)
  show ?thesis by blast
qed

text \<open>
  C8. In every reachable state the reads \<open>ownerOf\<close>, \<open>tokenURI\<close> and
  \<open>getEncryptedRealOwner\<close> fail, with "Token does not exist" (\<open>NotFound\<close>), exactly when the
  token does not exist, that is exactly when \<open>1 <= tokenId < nextTokenId\<close> is false;
  \<open>balanceOf\<close> fails, with "Invalid owner" (\<open>InvalidArgument\<close>), exactly for the zero address;
  \<open>totalSupply\<close> does not fail (and \<open>tokensOfOwner\<close> has no failing path).
\<close>

theorem reads_fail_exactly_when:
  assumes "reachable this s"
  shows "(owner (tokens s tokenId) \<noteq> 0 \<longleftrightarrow> 1 \<le> tokenId \<and> tokenId < nextTokenId s) \<and>
         ownerOf s tokenId =
           (if 1 \<le> tokenId \<and> tokenId < nextTokenId s then Inr (owner (tokens s tokenId))
            else Inl (Revert ''Token does not exist'')) \<and>
         tokenURI s tokenId =
           (if 1 \<le> tokenId \<and> tokenId < nextTokenId s then Inr (metadataURI (tokens s tokenId))
            else Inl (Revert ''Token does not exist'')) \<and>
         getEncryptedRealOwner s tokenId =
           (if 1 \<le> tokenId \<and> tokenId < nextTokenId s then Inr (realOwner (tokens s tokenId))
            else Inl (Revert ''Token does not exist'')) \<and>
         balanceOf s a = (if a = 0 then Inl (Revert ''Invalid owner'') else Inr (balances s a)) \<and>
         totalSupply s = Inr (nextTokenId s - 1)"
proof -
  note inv = reachable_inv[OF assms]
  have r: "1 \<le> tokenId \<longleftrightarrow> 0 < tokenId"
    by (simp add: word_le_nat_alt word_less_nat_alt Suc_le_eq)
  have e: "owner (tokens s tokenId) \<noteq> 0 \<longleftrightarrow> 1 \<le> tokenId \<and> tokenId < nextTokenId s"
    unfolding r by (rule ledger_invD(2)[OF inv])
  have t: "totalSupply s = Inr (nextTokenId s - 1)"
    using ledger_invD(1)[OF inv] by (simp add: totalSupply_def checked_dec_def)
  show ?thesis
    unfolding e[symmetric] using t
    by (simp add: ownerOf_def tokenURI_def getEncryptedRealOwner_def getToken_def balanceOf_def Let_def)
qed

theorem reads_fail_exactly_when_witness:
  "reachable ledger minted \<and> ownerOf minted 1 = Inr alice \<and>
   ownerOf minted 2 = Inl (Revert ''Token does not exist'') \<and>
   ownerOf minted 0 = Inl (Revert ''Token does not exist'') \<and>
   tokenURI minted 1 = Inr ''ipfs://shadowmint/3'' \<and> getEncryptedRealOwner minted 1 = Inr 7 \<and>
   tokenURI minted 2 = Inl (Revert ''Token does not exist'') \<and>
   getEncryptedRealOwner minted 2 = Inl (Revert ''Token does not exist'') \<and>
   balanceOf minted 0 = Inl (Revert ''Invalid owner'') \<and> balanceOf minted alice = Inr 1 \<and>
   totalSupply minted = Inr 1"
proof -
  have n: "nextTokenId minted = 2" by (simp add: minted_def)
  have t: "tokens minted 1 = \<lparr> owner = alice, realOwner = 7, metadataURI = ''ipfs://shadowmint/3'' \<rparr>"
    by (simp add: minted_def)
  have b: "balances minted alice = 1" by (simp add: minted_def)
  from reads_fail_exactly_when[OF reachable_minted, of 1 alice]
       reads_fail_exactly_when[OF reachable_minted, of 2 0]
       reads_fail_exactly_when[OF reachable_minted, of 0 0]
       reachable_minted accounts_distinct(1)
  show ?thesis unfolding n t b by simp
qed

text \<open>
  C9. Once a token exists, no later successful operation (a grant, a transfer of any
  token, a safe transfer, or the mint of another token) changes its stored \<open>realOwner\<close>
  handle or its \<open>metadataURI\<close>: the reads return after any sequence of operations what
  they returned before it.
\<close>

theorem token_fields_immutable:
  assumes "reachable this s" and "(step this)\<^sup>*\<^sup>* s s'" and "ownerOf s tokenId = Inr a"
  shows "getEncryptedRealOwner s tokenId = Inr (realOwner (tokens s tokenId)) \<and>
         getEncryptedRealOwner s' tokenId = Inr (realOwner (tokens s tokenId)) \<and>
         tokenURI s tokenId = Inr (metadataURI (tokens s tokenId)) \<and>
         tokenURI s' tokenId = Inr (metadataURI (tokens s tokenId))"
proof -
  have ex: "owner (tokens s tokenId) \<noteq> 0"
    using assms(3) by (auto simp: ownerOf_def Let_def split: if_splits)
  from steps_token_frame[OF assms(2) reachable_inv[OF assms(1)] ex] ex
  show ?thesis by (simp add: getEncryptedRealOwner_def tokenURI_def getToken_def Let_def)
qed

theorem token_fields_immutable_witness:
  "reachable ledger minted \<and> (step ledger)\<^sup>*\<^sup>* minted moved \<and> ownerOf minted 1 = Inr alice \<and>
   getEncryptedRealOwner minted 1 = Inr 7 \<and> getEncryptedRealOwner moved 1 = Inr 7 \<and>
   tokenURI minted 1 = Inr ''ipfs://shadowmint/3'' \<and> tokenURI moved 1 = Inr ''ipfs://shadowmint/3''"
proof -
  have s: "(step ledger)\<^sup>*\<^sup>* minted moved" using step_minted_moved by blast
  have o: "ownerOf minted 1 = Inr alice"
    using accounts_distinct by (simp add: ownerOf_def minted_def)
  have t: "tokens minted 1 = \<lparr> owner = alice, realOwner = 7, metadataURI = ''ipfs://shadowmint/3'' \<rparr>"
    by (simp add: minted_def)
  from token_fields_immutable[OF reachable_minted s o] reachable_minted s o
  show ?thesis unfolding t by simp
qed

text \<open>
  C10. Self-transfer is permitted: in every reachable state in which A owns token \<open>id\<close>,
  \<open>transferFrom(A, A, id)\<close> called by A succeeds, and afterwards \<open>ownerOf(id) = A\<close>,
  \<open>balanceOf(A)\<close> is what it was, \<open>tokensOfOwner(A)\<close> contains \<open>id\<close> exactly once, now in
  last position with the reverse index pointing at it, and the ledger invariant (owned
  sets and reverse index consistent) holds.
\<close>

theorem self_transfer:
  assumes "reachable this s" and "ownerOf s tokenId = Inr A"
  shows "\<exists>s'. transferFrom A A A tokenId s =
                 Inr ((), [Transfer A A tokenId, DecryptPermissionGranted tokenId A], s') \<and>
              ownerOf s' tokenId = Inr A \<and>
              balanceOf s A = Inr (balances s A) \<and> balanceOf s' A = Inr (balances s A) \<and>
              count_list (tokensOfOwner s' A) tokenId = 1 \<and>
              last (tokensOfOwner s' A) = tokenId \<and>
              ownedTokenIndex s' tokenId = array_length (tokensOfOwner s' A) - 1 \<and>
              ledger_inv s' \<and> reachable this s'"
proof -
  note inv = reachable_inv[OF assms(1)]
  have own: "owner (tokens s tokenId) = A" and A: "A \<noteq> 0"
    using assms(2) by (simp_all add: ownerOf_Inr)
  from owned_position[OF inv own A] obtain i where
    i: "i < length (ownedTokens s A)" "ownedTokens s A ! i = tokenId" by blast
  let ?s' = "transferred A A tokenId i s"
  have tr: "transferFrom A A A tokenId s =
              Inr ((), [Transfer A A tokenId, DecryptPermissionGranted tokenId A], ?s')"
    by (rule transferFrom_ok[OF inv own A A i])
  have inv': "ledger_inv ?s'" by (rule transferred_inv[OF inv own A A i])
  have r': "reachable this ?s'"
    by (rule reachable_step[OF assms(1) step_transfer[OF A tr]])
  have c1: "ownerOf ?s' tokenId = Inr A"
    using A by (simp add: ownerOf_Inr transferred_fields)
  have bal0: "balances s A \<noteq> 0"
    using ledger_invD(3)[OF inv, of A] i(1) by (auto simp: unat_eq_0[symmetric] simp del: unat_eq_0)
  have c2: "balanceOf s A = Inr (balances s A)" "balanceOf ?s' A = Inr (balances s A)"
    using A by (simp_all add: balanceOf_def transferred_fields debit_credit_def)
  have "tokenId \<in> set (ownedTokens ?s' A)" by (simp add: transferred_owned)
  then have c3: "count_list (tokensOfOwner ?s' A) tokenId = 1"
    unfolding tokensOfOwner_def by (rule count_list_distinct[OF ledger_invD(4)[OF inv']])
  have c4: "last (tokensOfOwner ?s' A) = tokenId"
    by (simp add: tokensOfOwner_def transferred_owned)
  have c5: "ownedTokenIndex ?s' tokenId = array_length (tokensOfOwner ?s' A) - 1"
    by (simp add: tokensOfOwner_def transferred_owned transferred_index array_length_def)
  show ?thesis using tr c1 c2 c3 c4 c5 inv' r' by blast
qed

theorem self_transfer_witness:
  "reachable ledger minted \<and> ownerOf minted 1 = Inr alice \<and>
   (\<exists>s'. transferFrom alice alice alice 1 minted =
            Inr ((), [Transfer alice alice 1, DecryptPermissionGranted 1 alice], s') \<and>
          ownerOf s' 1 = Inr alice \<and> balanceOf s' alice = Inr (balances minted alice) \<and>
          count_list (tokensOfOwner s' alice) 1 = 1)"
proof -
  have o: "ownerOf minted 1 = Inr alice"
    using accounts_distinct by (simp add: ownerOf_def minted_def)
  from self_transfer[OF reachable_minted o] reachable_minted o
  show ?thesis by blast
qed

end
